theory Spec2Isabelle
  imports Main "HOL-Library.Word"
begin

unbundle bit_operations_syntax

section \<open>Machine types and the Arduino bit macros\<close>

text \<open>
  All three sketches work on \<open>uint8_t\<close> values. The bit helpers they call are macros of
  the Arduino core (\<open>Arduino.h\<close>), which is not part of the repository:
  \<^verbatim>\<open>
  #define bitRead(value, bit)  (((value) >> (bit)) & 0x01)
  #define bitSet(value, bit)   ((value) |= (1UL << (bit)))
  #define bitClear(value, bit) ((value) &= ~(1UL << (bit)))
  \<close>
  The macros compute in \<open>unsigned long\<close> (32 bits on the AVR) and the result is narrowed
  again when it is stored in a \<open>uint8_t\<close>.
\<close>

type_synonym u8 = "8 word"
type_synonym u32 = "32 word"

definition HIGH :: u8 where
  "HIGH = 1"

definition LOW :: u8 where
  "LOW = 0"

text \<open>
  Modelled from the spec: \<open>bitRead\<close> is a macro of the Arduino core, absent from the
  sources; the spec calls it a pure bit-extraction helper. A shift by 8 or more of an
  8-bit value leaves 0, as the promoted C expression does.
\<close>

definition bitRead :: "u8 \<Rightarrow> u8 \<Rightarrow> u8" where
  "bitRead v b = drop_bit (unat b) v AND 1"

text \<open>
  Modelled from the spec: \<open>bitSet\<close> is a macro of the Arduino core, absent from the
  sources; the spec calls it a pure bit-mutation helper. The mask is built in 32 bits
  and the result narrowed to the byte it is stored in.
\<close>

definition bitSet :: "u8 \<Rightarrow> u8 \<Rightarrow> u8" where
  "bitSet v b = ucast ((ucast v :: u32) OR push_bit (unat b) 1)"

text \<open>
  Modelled from the spec: \<open>bitClear\<close> is a macro of the Arduino core, absent from the
  sources; the spec calls it a pure bit-mutation helper.
\<close>

definition bitClear :: "u8 \<Rightarrow> u8 \<Rightarrow> u8" where
  "bitClear v b = ucast ((ucast v :: u32) AND NOT (push_bit (unat b) 1))"

section \<open>OutputShiftRegister.ino: the 74HC595 sketch\<close>

text \<open>
  The sketch talks to the shift register through three digital lines. What it does to
  them is recorded as a list of line operations, in program order.
\<close>

datatype line_op = DigitalWrite nat u8 | DigitalRead nat u8

datatype bit_order = LSBFIRST | MSBFIRST

definition OSRDataPin :: nat where
  "OSRDataPin = 2"

definition OSRLatchPin :: nat where
  "OSRLatchPin = 3"

definition OSRClockPin :: nat where
  "OSRClockPin = 4"

text \<open>
  Modelled from the spec: \<open>shiftOut\<close> is a function of the Arduino core, absent from
  the sources; the spec says that the 8 bits are shifted out on clock pulses, in the
  requested bit order. Its loop \<open>for (i = 0; i < 8; i++)\<close> puts one bit on the data
  line and pulses the clock line high and low again.
\<close>

function shiftOut_loop :: "nat \<Rightarrow> nat \<Rightarrow> bit_order \<Rightarrow> u8 \<Rightarrow> nat \<Rightarrow> line_op list" where
  "shiftOut_loop dataPin clockPin bitOrder val i =
     (if i < 8 then
        [DigitalWrite dataPin
           (if bitOrder = LSBFIRST
            then (if val AND push_bit i 1 \<noteq> 0 then 1 else 0)
            else (if val AND push_bit (7 - i) 1 \<noteq> 0 then 1 else 0)),
         DigitalWrite clockPin HIGH,
         DigitalWrite clockPin LOW]
        @ shiftOut_loop dataPin clockPin bitOrder val (i + 1)
      else [])"
  by pat_completeness auto
termination
  by (relation "measure (\<lambda>(dataPin, clockPin, bitOrder, val, i). 8 - i)") auto

declare shiftOut_loop.simps [simp del]

definition shiftOut :: "nat \<Rightarrow> nat \<Rightarrow> bit_order \<Rightarrow> u8 \<Rightarrow> line_op list" where
  "shiftOut dataPin clockPin bitOrder val = shiftOut_loop dataPin clockPin bitOrder val 0"

definition osrWriteRegister :: "u8 \<Rightarrow> line_op list" where
  "osrWriteRegister outputs =
     [DigitalWrite OSRLatchPin LOW]
     @ shiftOut OSRDataPin OSRClockPin MSBFIRST outputs
     @ [DigitalWrite OSRLatchPin HIGH]"

text \<open>
  \<open>osrDigitalWrite\<close> keeps the output byte in a \<open>static\<close> local, which lives across
  calls: it is a field of the sketch's state, next to the line operations done so far.
\<close>

record osr_state =
  outputs :: u8
  osr_lines :: "line_op list"

definition osrDigitalWrite :: "u8 \<Rightarrow> u8 \<Rightarrow> osr_state \<Rightarrow> osr_state" where
  "osrDigitalWrite pin val st =
     (let outputs' =
        (if val = HIGH then bitSet (outputs st) pin
         else if val = LOW then bitClear (outputs st) pin
         else outputs st)
      in st\<lparr>outputs := outputs',
            osr_lines := osr_lines st @ osrWriteRegister outputs'\<rparr>)"

section \<open>InputShiftRegister.ino: the 74HC165 sketch\<close>

definition ISRDataPin :: nat where
  "ISRDataPin = 2"

definition ISRLatchPin :: nat where
  "ISRLatchPin = 3"

definition ISRClockPin :: nat where
  "ISRClockPin = 4"

text \<open>
  Modelled from the spec: \<open>shiftIn\<close> is a function of the Arduino core, absent from
  the sources; the spec says that 8 bits are shifted in from the data line on explicit
  clock pulses. Its loop \<open>for (i = 0; i < 8; ++i)\<close> raises the clock line, reads the
  data line into bit \<open>7 - i\<close> (or \<open>i\<close>) of the value, and lowers the clock line.
  What the data line carries is outside the sketch: \<open>din i\<close> says whether the read of
  round \<open>i\<close> finds the line high.
\<close>

function shiftIn_loop ::
  "nat \<Rightarrow> nat \<Rightarrow> bit_order \<Rightarrow> (nat \<Rightarrow> bool) \<Rightarrow> nat \<Rightarrow> u8 \<Rightarrow> line_op list \<Rightarrow> u8 \<times> line_op list" where
  "shiftIn_loop dataPin clockPin bitOrder din i val ops =
     (if i < 8 then
        shiftIn_loop dataPin clockPin bitOrder din (i + 1)
          (if bitOrder = LSBFIRST
           then val OR push_bit i (if din i then HIGH else LOW)
           else val OR push_bit (7 - i) (if din i then HIGH else LOW))
          (ops @ [DigitalWrite clockPin HIGH,
                  DigitalRead dataPin (if din i then HIGH else LOW),
                  DigitalWrite clockPin LOW])
      else (val, ops))"
  by pat_completeness auto
termination
  by (relation "measure (\<lambda>(dataPin, clockPin, bitOrder, din, i, val, ops). 8 - i)") auto

declare shiftIn_loop.simps [simp del]

definition shiftIn :: "nat \<Rightarrow> nat \<Rightarrow> bit_order \<Rightarrow> (nat \<Rightarrow> bool) \<Rightarrow> u8 \<times> line_op list" where
  "shiftIn dataPin clockPin bitOrder din = shiftIn_loop dataPin clockPin bitOrder din 0 0 []"

text \<open>The result is the byte read together with the line operations performed.\<close>

definition isrReadRegister :: "(nat \<Rightarrow> bool) \<Rightarrow> u8 \<times> line_op list" where
  "isrReadRegister din =
     (let r = shiftIn ISRDataPin ISRClockPin MSBFIRST din
      in (fst r,
          [DigitalWrite ISRClockPin HIGH, DigitalWrite ISRLatchPin HIGH]
          @ snd r
          @ [DigitalWrite ISRLatchPin LOW]))"

definition isrDigitalRead :: "u8 \<Rightarrow> (nat \<Rightarrow> bool) \<Rightarrow> u8 \<times> line_op list" where
  "isrDigitalRead pin din =
     (let r = isrReadRegister din in (bitRead (fst r) pin, snd r))"

subsection \<open>A simulated shift path between the two sketches\<close>

text \<open>
  The loopback used to compare the two transactions: the level that the writing side
  has on its data line at each rising edge of its clock line is, in the same order, the
  level that the reading side finds at its successive reads. \<open>clocked_bits\<close> walks the
  writer's line operations, keeping the current data and clock levels.
\<close>

fun clocked_bits :: "nat \<Rightarrow> nat \<Rightarrow> u8 \<Rightarrow> u8 \<Rightarrow> line_op list \<Rightarrow> bool list" where
  "clocked_bits dp cp d c [] = []"
| "clocked_bits dp cp d c (DigitalWrite p v # ops) =
     (if p = cp then
        (if c = LOW \<and> v \<noteq> LOW then (d \<noteq> LOW) # clocked_bits dp cp d v ops
         else clocked_bits dp cp d v ops)
      else if p = dp then clocked_bits dp cp v c ops
      else clocked_bits dp cp d c ops)"
| "clocked_bits dp cp d c (DigitalRead p v # ops) = clocked_bits dp cp d c ops"

definition shift_path :: "line_op list \<Rightarrow> nat \<Rightarrow> bool" where
  "shift_path ops k =
     (let bs = clocked_bits OSRDataPin OSRClockPin LOW LOW ops
      in if k < length bs then bs ! k else False)"

section \<open>PortExpander.ino: the MCP23017 sketch\<close>

subsection \<open>The peripheral as the sketch sees it\<close>

text \<open>
  The sketch drives the expander through the MCP23017 library, which is not part of the
  repository. Each library call is recorded as an event, with the arguments written at
  the call site; what a reading call returns is outside the sketch and is taken from
  the current answers of the peripheral.
\<close>

datatype mcp_port = PortA | PortB

datatype mcp_register = GPIO_A | GPIO_B

datatype pin_mode = INPUT | OUTPUT | INPUT_PULLUP

datatype edge_mode = CHANGE | FALLING

text \<open>
  The arguments of \<open>attachInterrupt\<close> as the sketch writes them: the interrupt number
  is \<open>digitalPinToInterrupt(pin)\<close>, a macro of the Arduino core that is kept
  unevaluated, and the routine is the sketch's only callback.
\<close>

datatype interrupt_number = DigitalPinToInterrupt nat

datatype callback = Mcp23017ChangeDetectedOnPortB

datatype pe_event =
    WireBegin
  | McpInit
  | McpPinMode u8 pin_mode
  | McpPinModeInverted u8 pin_mode bool
  | McpPortMode mcp_port u8
  | McpPortModeFull mcp_port u8 u8 u8
  | McpInterruptModeSeparated
  | McpInterrupt mcp_port edge_mode
  | McpClearInterrupts
  | McpClearInterruptsCapture
  | McpInterruptedBy
  | McpWriteRegister mcp_register u8
  | McpDigitalRead u8
  | McpDigitalWrite u8 u8
  | McpReadPort mcp_port
  | McpWritePort mcp_port u8
  | PinMode nat pin_mode
  | AttachInterrupt interrupt_number callback edge_mode
  | Delay nat

record mcp_answers =
  interruptedBy_ans :: "u8 \<times> u8"
  clearInterrupts_ans :: "u8 \<times> u8"
  readPort_ans :: "mcp_port \<Rightarrow> u8"
  digitalRead_ans :: "u8 \<Rightarrow> u8"

text \<open>
  The state of the sketch: the global flag, the peripheral's current answers, the
  locals of \<open>readAndWritePinOnInputChange\<close> (uninitialised when the function is
  entered, so any content is possible there) and the events so far.
\<close>

record pe_state =
  switchDidChange :: bool
  mcp23017 :: mcp_answers
  l_flagA :: u8
  l_flagB :: u8
  l_capA :: u8
  l_capB :: u8
  l_pin :: u8
  l_value :: u8
  trace :: "pe_event list"

definition MCP23017_INTB :: nat where
  "MCP23017_INTB = 2"

definition LED0 :: u8 where "LED0 = 0"
definition LED1 :: u8 where "LED1 = 1"
definition LED2 :: u8 where "LED2 = 2"
definition LED3 :: u8 where "LED3 = 3"
definition LED4 :: u8 where "LED4 = 4"
definition LED5 :: u8 where "LED5 = 5"
definition LED6 :: u8 where "LED6 = 6"
definition LED7 :: u8 where "LED7 = 7"
definition Switch0 :: u8 where "Switch0 = 8"
definition Switch1 :: u8 where "Switch1 = 9"
definition Switch2 :: u8 where "Switch2 = 10"
definition Switch3 :: u8 where "Switch3 = 11"
definition Switch4 :: u8 where "Switch4 = 12"
definition Switch5 :: u8 where "Switch5 = 13"
definition Switch6 :: u8 where "Switch6 = 14"
definition Switch7 :: u8 where "Switch7 = 15"

subsection \<open>Statements\<close>

text \<open>
  A function body is the list of its statements, each a state transformer; \<open>exec\<close>
  runs them in order.
\<close>

type_synonym stmt = "pe_state \<Rightarrow> pe_state"

fun exec :: "stmt list \<Rightarrow> pe_state \<Rightarrow> pe_state" where
  "exec [] s = s"
| "exec (f # fs) s = exec fs (f s)"

definition emit :: "pe_event list \<Rightarrow> stmt" where
  "emit es s = s\<lparr>trace := trace s @ es\<rparr>"

definition delay :: "nat \<Rightarrow> stmt" where
  "delay ms = emit [Delay ms]"

definition mcp_interruptedBy :: stmt where
  "mcp_interruptedBy s =
     emit [McpInterruptedBy]
       (s\<lparr>l_flagA := fst (interruptedBy_ans (mcp23017 s)),
          l_flagB := snd (interruptedBy_ans (mcp23017 s))\<rparr>)"

definition mcp_clearInterrupts :: stmt where
  "mcp_clearInterrupts = emit [McpClearInterrupts]"

definition mcp_clearInterrupts_capture :: stmt where
  "mcp_clearInterrupts_capture s =
     emit [McpClearInterruptsCapture]
       (s\<lparr>l_capA := fst (clearInterrupts_ans (mcp23017 s)),
          l_capB := snd (clearInterrupts_ans (mcp23017 s))\<rparr>)"

definition set_switchDidChange :: "bool \<Rightarrow> stmt" where
  "set_switchDidChange b s = s\<lparr>switchDidChange := b\<rparr>"

subsection \<open>Interrupt service routine\<close>

definition mcp23017ChangeDetectedOnPortB :: stmt where
  "mcp23017ChangeDetectedOnPortB = set_switchDidChange True"

subsection \<open>Polling approaches\<close>

definition copy_pin :: "u8 \<Rightarrow> u8 \<Rightarrow> stmt" where
  "copy_pin led sw s =
     emit [McpDigitalRead sw, McpDigitalWrite led (digitalRead_ans (mcp23017 s) sw)] s"

definition readAndWriteWithDigitalReadAndDigitalWrite :: stmt where
  "readAndWriteWithDigitalReadAndDigitalWrite =
     exec [copy_pin LED0 Switch0, copy_pin LED1 Switch1, copy_pin LED2 Switch2,
           copy_pin LED3 Switch3, copy_pin LED4 Switch4, copy_pin LED5 Switch5,
           copy_pin LED6 Switch6, copy_pin LED7 Switch7]"

definition portCopy :: stmt where
  "portCopy s =
     emit [McpReadPort PortB, McpWritePort PortA (readPort_ans (mcp23017 s) PortB)] s"

subsection \<open>Interrupt-driven approaches\<close>

definition readAndWritePortOnInputChange_body :: "stmt list" where
  "readAndWritePortOnInputChange_body =
     [delay 100, portCopy, mcp_clearInterrupts, set_switchDidChange False]"

definition readAndWritePortOnInputChange :: stmt where
  "readAndWritePortOnInputChange s =
     (if switchDidChange s then exec readAndWritePortOnInputChange_body s else s)"

text \<open>
  The search loop of \<open>readAndWritePinOnInputChange\<close>:
  \<open>for (pin = 0; pin < 8; pin++) { if (bitRead(flagB, pin)) break; }\<close>.
  The result is the value of \<open>pin\<close> when the loop is left.
\<close>

function pin_loop :: "u8 \<Rightarrow> u8 \<Rightarrow> u8" where
  "pin_loop flagB pin =
     (if pin < 8 then
        (if bitRead flagB pin \<noteq> 0 then pin else pin_loop flagB (pin + 1))
      else pin)"
  by pat_completeness auto
termination
proof (relation "measure (\<lambda>(flagB, pin). 8 - unat pin)")
  show "wf (measure (\<lambda>(flagB :: u8, pin :: u8). 8 - unat pin))"
    by simp
next
  fix flagB pin :: u8
  assume "pin < 8"
  then have "unat pin < 8"
    by (simp add: word_less_nat_alt)
  moreover from this have "unat (pin + 1) = unat pin + 1"
    by (simp add: unat_word_ariths)
  ultimately show "((flagB, pin + 1), (flagB, pin)) \<in> measure (\<lambda>(flagB, pin). 8 - unat pin)"
    by simp
qed

declare pin_loop.simps [simp del]

definition declare_pin :: stmt where
  "declare_pin s = s\<lparr>l_pin := 0\<rparr>"

definition find_pin :: stmt where
  "find_pin s = s\<lparr>l_pin := pin_loop (l_flagB s) 0\<rparr>"

definition read_value :: stmt where
  "read_value s = s\<lparr>l_value := bitRead (l_capB s) (l_pin s)\<rparr>"

definition write_pin :: stmt where
  "write_pin s = emit [McpDigitalWrite (l_pin s) (l_value s)] s"

definition readAndWritePinOnInputChange_body :: "stmt list" where
  "readAndWritePinOnInputChange_body =
     [delay 100, mcp_interruptedBy, mcp_clearInterrupts_capture,
      declare_pin, find_pin, read_value, write_pin, set_switchDidChange False]"

definition readAndWritePinOnInputChange :: stmt where
  "readAndWritePinOnInputChange s =
     (if switchDidChange s then exec readAndWritePinOnInputChange_body s else s)"

subsection \<open>Configuration, setup and loop\<close>

definition configurePinsWithPinMode :: stmt where
  "configurePinsWithPinMode =
     emit [McpPinMode LED0 OUTPUT, McpPinMode LED1 OUTPUT, McpPinMode LED2 OUTPUT,
           McpPinMode LED3 OUTPUT, McpPinMode LED4 OUTPUT, McpPinMode LED5 OUTPUT,
           McpPinMode LED6 OUTPUT, McpPinMode LED7 OUTPUT,
           McpPinModeInverted Switch0 INPUT_PULLUP True,
           McpPinModeInverted Switch1 INPUT_PULLUP True,
           McpPinModeInverted Switch2 INPUT_PULLUP True,
           McpPinModeInverted Switch3 INPUT_PULLUP True,
           McpPinModeInverted Switch4 INPUT_PULLUP True,
           McpPinModeInverted Switch5 INPUT_PULLUP True,
           McpPinModeInverted Switch6 INPUT_PULLUP True,
           McpPinModeInverted Switch7 INPUT_PULLUP True]"

definition configurePinsWithPortMode :: stmt where
  "configurePinsWithPortMode =
     emit [McpPortMode PortA 0, McpPortModeFull PortB 255 255 255]"

definition configureInterrupts :: stmt where
  "configureInterrupts =
     emit [McpInterruptModeSeparated, McpInterrupt PortB CHANGE, McpClearInterrupts,
           PinMode MCP23017_INTB INPUT_PULLUP, AttachInterrupt (DigitalPinToInterrupt MCP23017_INTB)
             Mcp23017ChangeDetectedOnPortB FALLING]"

text \<open>The sketch's \<open>setup()\<close>.\<close>

definition setup_sketch :: stmt where
  "setup_sketch =
     exec [emit [WireBegin], emit [McpInit], configurePinsWithPortMode,
           configureInterrupts,
           emit [McpWriteRegister GPIO_A 0], emit [McpWriteRegister GPIO_B 0]]"

text \<open>
  \<open>loop\<close> names four alternative bodies and enables the last one; \<open>loop_with\<close> is the
  loop with a chosen alternative enabled.
\<close>

datatype approach =
    DigitalReadAndDigitalWrite
  | PortCopy
  | PortOnInputChange
  | PinOnInputChange

fun loop_with :: "approach \<Rightarrow> stmt" where
  "loop_with DigitalReadAndDigitalWrite = readAndWriteWithDigitalReadAndDigitalWrite"
| "loop_with PortCopy = portCopy"
| "loop_with PortOnInputChange = readAndWritePortOnInputChange"
| "loop_with PinOnInputChange = readAndWritePinOnInputChange"

definition loop :: stmt where
  "loop = loop_with PinOnInputChange"

text \<open>
  Successive iterations of the loop; the peripheral may answer differently in each, so
  every iteration comes with the answers current at that time.
\<close>

fun run_loop :: "approach \<Rightarrow> mcp_answers list \<Rightarrow> pe_state \<Rightarrow> pe_state" where
  "run_loop a [] s = s"
| "run_loop a (e # es) s = run_loop a es (loop_with a (s\<lparr>mcp23017 := e\<rparr>))"

subsection \<open>The callback arriving while a body runs\<close>

text \<open>
  The interrupt service routine may preempt the main flow between any two statements.
  \<open>exec_isr k body\<close> runs \<open>body\<close> with the routine invoked once, just before statement
  number \<open>k\<close> (counted from 0); with \<open>k\<close> the length of the body or more, it is invoked
  after the last statement.
\<close>

fun exec_isr :: "nat \<Rightarrow> stmt list \<Rightarrow> pe_state \<Rightarrow> pe_state" where
  "exec_isr 0 fs s = exec fs (mcp23017ChangeDetectedOnPortB s)"
| "exec_isr (Suc k) [] s = mcp23017ChangeDetectedOnPortB s"
| "exec_isr (Suc k) (f # fs) s = exec_isr k fs (f s)"

subsection \<open>Statements that neither read nor write the flag\<close>

text \<open>
  A statement is blind to the flag when running it commutes with every store to
  \<open>switchDidChange\<close>: it does not write the flag, and nothing it does depends on it.
\<close>

definition flag_blind :: "stmt \<Rightarrow> bool" where
  "flag_blind f = (\<forall>b s. f (set_switchDidChange b s) = set_switchDidChange b (f s))"

subsection \<open>Concrete states\<close>

text \<open>
  The state in which the sketch starts (the flag is initialised to \<open>false\<close>), and a
  state in which the callback has run while the peripheral reports the flag byte
  \<open>flagB\<close> and the capture byte \<open>capB\<close> for port B.
\<close>

definition port_answers :: "u8 \<Rightarrow> u8 \<Rightarrow> mcp_answers" where
  "port_answers flagB capB =
     \<lparr>interruptedBy_ans = (0, flagB),
      clearInterrupts_ans = (0, capB),
      readPort_ans = (\<lambda>p. case p of PortA \<Rightarrow> 0 | PortB \<Rightarrow> capB),
      digitalRead_ans = (\<lambda>pin. 0)\<rparr>"

definition start_state :: pe_state where
  "start_state =
     \<lparr>switchDidChange = False, mcp23017 = port_answers 0 0,
      l_flagA = 0, l_flagB = 0, l_capA = 0, l_capB = 0, l_pin = 0, l_value = 0,
      trace = []\<rparr>"

definition pending_state :: "u8 \<Rightarrow> u8 \<Rightarrow> pe_state" where
  "pending_state flagB capB =
     mcp23017ChangeDetectedOnPortB (start_state\<lparr>mcp23017 := port_answers flagB capB\<rparr>)"

section \<open>Bit helpers: basic facts\<close>

lemma bit_bitSet: "bit (bitSet v b) n \<longleftrightarrow> n < 8 \<and> (bit v n \<or> n = unat b)"
  by (auto simp add: bitSet_def bit_simps)

lemma bit_bitClear: "bit (bitClear v b) n \<longleftrightarrow> bit v n \<and> n \<noteq> unat b"
  by (auto simp add: bitClear_def bit_simps dest: bit_imp_le_length)

lemma bitRead_eq: "bitRead v b = (if bit v (unat b) then 1 else 0)"
  by (rule bit_eqI) (auto simp add: bitRead_def bit_simps bit_1_iff intro!: gr0I)

text \<open>
  C5. For every byte \<open>b\<close> and every index \<open>i\<close> from 0 to 7, setting bit \<open>i\<close> and then
  clearing it gives the same byte as clearing bit \<open>i\<close> of \<open>b\<close>, and reading bit \<open>i\<close>
  right after writing it returns the value written: 1 after \<open>bitSet\<close>, 0 after
  \<open>bitClear\<close>.
\<close>

theorem bit_write_round_trip:
  "i < 8 \<Longrightarrow>
     bitClear (bitSet b i) i = bitClear b i
   \<and> bitRead (bitSet b i) i = HIGH
   \<and> bitRead (bitClear b i) i = LOW"
proof -
  assume "i < 8"
  then have i: "unat i < 8"
    by (simp add: word_less_nat_alt)
  have 1: "bitClear (bitSet b i) i = bitClear b i"
    by (rule bit_eqI) (auto simp add: bit_bitClear bit_bitSet)
  have 2: "bitRead (bitSet b i) i = HIGH"
    using i by (simp add: bitRead_eq bit_bitSet HIGH_def)
  have 3: "bitRead (bitClear b i) i = LOW"
    by (simp add: bitRead_eq bit_bitClear LOW_def)
  from 1 2 3 show ?thesis by simp
qed

theorem bit_write_round_trip_witness:
  "(3 :: u8) < 8
   \<and> bitClear (bitSet 21 3) 3 = bitClear (21 :: u8) 3
   \<and> bitRead (bitSet 21 3) 3 = HIGH
   \<and> bitRead (bitClear 21 3) 3 = LOW"
  using bit_write_round_trip [of 3 21] by simp

section \<open>The shift-register transactions\<close>

lemma and_mask_bit: "(v AND 2 ^ k = 0) = (\<not> bit v k)" for v :: u8
  by (simp add: bit_iff_and_push_bit_not_eq_0 push_bit_eq_mult)

lemma shiftOut_loop_step:
  "i < 8 \<Longrightarrow> j = i + 1 \<Longrightarrow> k = 7 - i \<Longrightarrow> shiftOut_loop d c MSBFIRST v i =
     [DigitalWrite d (if bit v k then 1 else 0), DigitalWrite c HIGH, DigitalWrite c LOW]
     @ shiftOut_loop d c MSBFIRST v j"
  by (subst shiftOut_loop.simps) (simp add: and_mask_bit)

lemma shiftOut_loop_done: "shiftOut_loop d c b v 8 = []"
  by (subst shiftOut_loop.simps) simp

lemma shiftOut_trace: "shiftOut d c MSBFIRST v =
  [DigitalWrite d (if bit v 7 then 1 else 0), DigitalWrite c HIGH, DigitalWrite c LOW,
   DigitalWrite d (if bit v 6 then 1 else 0), DigitalWrite c HIGH, DigitalWrite c LOW,
   DigitalWrite d (if bit v 5 then 1 else 0), DigitalWrite c HIGH, DigitalWrite c LOW,
   DigitalWrite d (if bit v 4 then 1 else 0), DigitalWrite c HIGH, DigitalWrite c LOW,
   DigitalWrite d (if bit v 3 then 1 else 0), DigitalWrite c HIGH, DigitalWrite c LOW,
   DigitalWrite d (if bit v 2 then 1 else 0), DigitalWrite c HIGH, DigitalWrite c LOW,
   DigitalWrite d (if bit v 1 then 1 else 0), DigitalWrite c HIGH, DigitalWrite c LOW,
   DigitalWrite d (if bit v 0 then 1 else 0), DigitalWrite c HIGH, DigitalWrite c LOW]"
proof -
  have s0: "shiftOut_loop d c MSBFIRST v 0 =
      [DigitalWrite d (if bit v 7 then 1 else 0), DigitalWrite c HIGH, DigitalWrite c LOW]
      @ shiftOut_loop d c MSBFIRST v 1"
    by (rule shiftOut_loop_step) simp_all
  have s1: "shiftOut_loop d c MSBFIRST v 1 =
      [DigitalWrite d (if bit v 6 then 1 else 0), DigitalWrite c HIGH, DigitalWrite c LOW]
      @ shiftOut_loop d c MSBFIRST v 2"
    by (rule shiftOut_loop_step) simp_all
  have s2: "shiftOut_loop d c MSBFIRST v 2 =
      [DigitalWrite d (if bit v 5 then 1 else 0), DigitalWrite c HIGH, DigitalWrite c LOW]
      @ shiftOut_loop d c MSBFIRST v 3"
    by (rule shiftOut_loop_step) simp_all
  have s3: "shiftOut_loop d c MSBFIRST v 3 =
      [DigitalWrite d (if bit v 4 then 1 else 0), DigitalWrite c HIGH, DigitalWrite c LOW]
      @ shiftOut_loop d c MSBFIRST v 4"
    by (rule shiftOut_loop_step) simp_all
  have s4: "shiftOut_loop d c MSBFIRST v 4 =
      [DigitalWrite d (if bit v 3 then 1 else 0), DigitalWrite c HIGH, DigitalWrite c LOW]
      @ shiftOut_loop d c MSBFIRST v 5"
    by (rule shiftOut_loop_step) simp_all
  have s5: "shiftOut_loop d c MSBFIRST v 5 =
      [DigitalWrite d (if bit v 2 then 1 else 0), DigitalWrite c HIGH, DigitalWrite c LOW]
      @ shiftOut_loop d c MSBFIRST v 6"
    by (rule shiftOut_loop_step) simp_all
  have s6: "shiftOut_loop d c MSBFIRST v 6 =
      [DigitalWrite d (if bit v 1 then 1 else 0), DigitalWrite c HIGH, DigitalWrite c LOW]
      @ shiftOut_loop d c MSBFIRST v 7"
    by (rule shiftOut_loop_step) simp_all
  have s7: "shiftOut_loop d c MSBFIRST v 7 =
      [DigitalWrite d (if bit v 0 then 1 else 0), DigitalWrite c HIGH, DigitalWrite c LOW]
      @ shiftOut_loop d c MSBFIRST v 8"
    by (rule shiftOut_loop_step) simp_all
  show ?thesis
    by (simp only: shiftOut_def s0 s1 s2 s3 s4 s5 s6 s7 shiftOut_loop_done append.simps)
qed

lemma shiftIn_loop_bit:
  "bo = MSBFIRST \<Longrightarrow>
   bit (fst (shiftIn_loop d c bo din i val ops)) n \<longleftrightarrow>
     bit val n \<or> (n < 8 - i \<and> din (7 - n))"
proof (induction d c bo din i val ops rule: shiftIn_loop.induct)
  case (1 d c bo din i val ops)
  show ?case
  proof (cases "i < 8")
    case True
    have "bit (fst (shiftIn_loop d c bo din i val ops)) n \<longleftrightarrow>
       bit (val OR push_bit (7 - i) (if din i then HIGH else LOW)) n \<or> (n < 8 - (i + 1) \<and> din (7 - n))"
      using True "1.IH" "1.prems" by (subst shiftIn_loop.simps) simp
    also have "\<dots> \<longleftrightarrow> bit val n \<or> (n < 8 - i \<and> din (7 - n))"
    proof (cases "n = 7 - i")
      case eq: True
      with True have "7 - n = i" and "n < 8 - i" and "\<not> n < 8 - (i + 1)" and "n < 8" by arith+
      then show ?thesis
        by (simp add: bit_simps HIGH_def LOW_def bit_1_iff)
    next
      case neq: False
      with True have "n < 8 - (i + 1) \<longleftrightarrow> n < 8 - i" by arith
      with neq True show ?thesis
        by (auto simp add: bit_simps HIGH_def LOW_def bit_1_iff)
    qed
    finally show ?thesis .
  next
    case False
    then show ?thesis by (subst shiftIn_loop.simps) simp
  qed
qed

lemma shiftIn_loop_ops:
  "snd (shiftIn_loop d c bo din i val ops) =
     ops @ concat (map (\<lambda>j. [DigitalWrite c HIGH, DigitalRead d (if din j then HIGH else LOW), DigitalWrite c LOW]) [i..<8])"
proof (induction d c bo din i val ops rule: shiftIn_loop.induct)
  case (1 d c bo din i val ops)
  show ?case
  proof (cases "i < 8")
    case True
    then have "[i..<8] = i # [i + 1..<8]"
      by (simp add: upt_conv_Cons)
    with True "1.IH" show ?thesis
      by (subst shiftIn_loop.simps) simp
  next
    case False
    then show ?thesis
      by (subst shiftIn_loop.simps) simp
  qed
qed

lemma upt8: "[0..<8] = [0, 1, 2, 3, 4, 5, 6, 7::nat]"
  by code_simp

lemma shiftIn_ops: "snd (shiftIn d c bo din) =
  [DigitalWrite c HIGH, DigitalRead d (if din 0 then HIGH else LOW), DigitalWrite c LOW,
   DigitalWrite c HIGH, DigitalRead d (if din 1 then HIGH else LOW), DigitalWrite c LOW,
   DigitalWrite c HIGH, DigitalRead d (if din 2 then HIGH else LOW), DigitalWrite c LOW,
   DigitalWrite c HIGH, DigitalRead d (if din 3 then HIGH else LOW), DigitalWrite c LOW,
   DigitalWrite c HIGH, DigitalRead d (if din 4 then HIGH else LOW), DigitalWrite c LOW,
   DigitalWrite c HIGH, DigitalRead d (if din 5 then HIGH else LOW), DigitalWrite c LOW,
   DigitalWrite c HIGH, DigitalRead d (if din 6 then HIGH else LOW), DigitalWrite c LOW,
   DigitalWrite c HIGH, DigitalRead d (if din 7 then HIGH else LOW), DigitalWrite c LOW]"
  by (simp only: shiftIn_def shiftIn_loop_ops upt8 list.map concat.simps append.simps)

lemma osrWriteRegister_ops: "osrWriteRegister b =
  [DigitalWrite OSRLatchPin LOW,
   DigitalWrite OSRDataPin (if bit b 7 then 1 else 0), DigitalWrite OSRClockPin HIGH, DigitalWrite OSRClockPin LOW,
   DigitalWrite OSRDataPin (if bit b 6 then 1 else 0), DigitalWrite OSRClockPin HIGH, DigitalWrite OSRClockPin LOW,
   DigitalWrite OSRDataPin (if bit b 5 then 1 else 0), DigitalWrite OSRClockPin HIGH, DigitalWrite OSRClockPin LOW,
   DigitalWrite OSRDataPin (if bit b 4 then 1 else 0), DigitalWrite OSRClockPin HIGH, DigitalWrite OSRClockPin LOW,
   DigitalWrite OSRDataPin (if bit b 3 then 1 else 0), DigitalWrite OSRClockPin HIGH, DigitalWrite OSRClockPin LOW,
   DigitalWrite OSRDataPin (if bit b 2 then 1 else 0), DigitalWrite OSRClockPin HIGH, DigitalWrite OSRClockPin LOW,
   DigitalWrite OSRDataPin (if bit b 1 then 1 else 0), DigitalWrite OSRClockPin HIGH, DigitalWrite OSRClockPin LOW,
   DigitalWrite OSRDataPin (if bit b 0 then 1 else 0), DigitalWrite OSRClockPin HIGH, DigitalWrite OSRClockPin LOW,
   DigitalWrite OSRLatchPin HIGH]"
  by (simp only: osrWriteRegister_def shiftOut_trace append.simps)

lemma clocked_bits_osrWriteRegister:
  "clocked_bits OSRDataPin OSRClockPin LOW LOW (osrWriteRegister b) =
     [bit b 7, bit b 6, bit b 5, bit b 4, bit b 3, bit b 2, bit b 1, bit b 0]"
  unfolding osrWriteRegister_ops
  by (simp add: OSRDataPin_def OSRClockPin_def OSRLatchPin_def HIGH_def LOW_def)

lemma shift_path_osrWriteRegister:
  "shift_path (osrWriteRegister b) k \<longleftrightarrow> k < 8 \<and> bit b (7 - k)"
proof (cases "k < 8")
  case True
  then consider "k = 0" | "k = 1" | "k = 2" | "k = 3" | "k = 4" | "k = 5" | "k = 6" | "k = 7"
    by arith
  then show ?thesis
    by cases (simp_all add: shift_path_def clocked_bits_osrWriteRegister)
next
  case False
  then show ?thesis
    by (simp add: shift_path_def clocked_bits_osrWriteRegister)
qed

lemma isrReadRegister_bit:
  "bit (fst (isrReadRegister din)) n \<longleftrightarrow> n < 8 \<and> din (7 - n)"
  by (simp add: isrReadRegister_def Let_def shiftIn_def shiftIn_loop_bit)

text \<open>
  C6. For every byte, what \<open>osrWriteRegister\<close> shifts out most significant bit first,
  fed over the simulated shift path into \<open>isrReadRegister\<close>, is read back as the same
  byte; writing \<open>0b00000010\<close> reads back as pin 1 high and pins 0 and 2 to 7 low.
\<close>

theorem shift_loopback_round_trip: "fst (isrReadRegister (shift_path (osrWriteRegister b))) = b
  \<and> map (\<lambda>p. fst (isrDigitalRead p (shift_path (osrWriteRegister 2)))) [0, 1, 2, 3, 4, 5, 6, 7]
      = [LOW, HIGH, LOW, LOW, LOW, LOW, LOW, LOW]"
proof -
  have rt: "fst (isrReadRegister (shift_path (osrWriteRegister b))) = b" for b
  proof (rule bit_eqI)
    fix n
    show "bit (fst (isrReadRegister (shift_path (osrWriteRegister b)))) n \<longleftrightarrow> bit b n"
    proof (cases "n < 8")
      case True
      then have "7 - (7 - n) = n" and "7 - n < 8" by arith+
      with True show ?thesis
        by (simp add: isrReadRegister_bit shift_path_osrWriteRegister)
    next
      case False
      then have "\<not> bit b n"
        by (auto dest: bit_imp_le_length)
      with False show ?thesis
        by (simp add: isrReadRegister_bit)
    qed
  qed
  have "map (\<lambda>p. fst (isrDigitalRead p (shift_path (osrWriteRegister 2)))) [0, 1, 2, 3, 4, 5, 6, 7]
      = [LOW, HIGH, LOW, LOW, LOW, LOW, LOW, LOW]"
    by (simp add: isrDigitalRead_def Let_def rt bitRead_def HIGH_def LOW_def)
  with rt show ?thesis by simp
qed

text \<open>
  C7. For every byte, \<open>osrWriteRegister\<close> performs exactly these line operations: the
  latch line is driven low, the 8 bits are put on the data line from bit 7 down to bit
  0, each followed by a clock pulse, and the latch line is driven high as the final
  operation. The latch line is not driven high anywhere before that final operation,
  so the register's outputs are committed in one step.
\<close>

theorem osrWriteRegister_sequence: "osrWriteRegister b =
  [DigitalWrite OSRLatchPin LOW,
   DigitalWrite OSRDataPin (if bit b 7 then HIGH else LOW), DigitalWrite OSRClockPin HIGH, DigitalWrite OSRClockPin LOW,
   DigitalWrite OSRDataPin (if bit b 6 then HIGH else LOW), DigitalWrite OSRClockPin HIGH, DigitalWrite OSRClockPin LOW,
   DigitalWrite OSRDataPin (if bit b 5 then HIGH else LOW), DigitalWrite OSRClockPin HIGH, DigitalWrite OSRClockPin LOW,
   DigitalWrite OSRDataPin (if bit b 4 then HIGH else LOW), DigitalWrite OSRClockPin HIGH, DigitalWrite OSRClockPin LOW,
   DigitalWrite OSRDataPin (if bit b 3 then HIGH else LOW), DigitalWrite OSRClockPin HIGH, DigitalWrite OSRClockPin LOW,
   DigitalWrite OSRDataPin (if bit b 2 then HIGH else LOW), DigitalWrite OSRClockPin HIGH, DigitalWrite OSRClockPin LOW,
   DigitalWrite OSRDataPin (if bit b 1 then HIGH else LOW), DigitalWrite OSRClockPin HIGH, DigitalWrite OSRClockPin LOW,
   DigitalWrite OSRDataPin (if bit b 0 then HIGH else LOW), DigitalWrite OSRClockPin HIGH, DigitalWrite OSRClockPin LOW,
   DigitalWrite OSRLatchPin HIGH]
  \<and> last (osrWriteRegister b) = DigitalWrite OSRLatchPin HIGH
  \<and> DigitalWrite OSRLatchPin HIGH \<notin> set (butlast (osrWriteRegister b))"
  unfolding osrWriteRegister_ops
  by (simp add: OSRDataPin_def OSRClockPin_def OSRLatchPin_def HIGH_def LOW_def)

text \<open>
  C8. In every call of \<open>isrReadRegister\<close> the clock line is driven high first, then
  the latch line is raised, then 8 bits are shifted in, the first one read landing in
  bit 7 and the last one in bit 0, and finally the latch line is driven low again.
\<close>

theorem isrReadRegister_sequence: "snd (isrReadRegister din) =
  [DigitalWrite ISRClockPin HIGH, DigitalWrite ISRLatchPin HIGH,
   DigitalWrite ISRClockPin HIGH, DigitalRead ISRDataPin (if din 0 then HIGH else LOW), DigitalWrite ISRClockPin LOW,
   DigitalWrite ISRClockPin HIGH, DigitalRead ISRDataPin (if din 1 then HIGH else LOW), DigitalWrite ISRClockPin LOW,
   DigitalWrite ISRClockPin HIGH, DigitalRead ISRDataPin (if din 2 then HIGH else LOW), DigitalWrite ISRClockPin LOW,
   DigitalWrite ISRClockPin HIGH, DigitalRead ISRDataPin (if din 3 then HIGH else LOW), DigitalWrite ISRClockPin LOW,
   DigitalWrite ISRClockPin HIGH, DigitalRead ISRDataPin (if din 4 then HIGH else LOW), DigitalWrite ISRClockPin LOW,
   DigitalWrite ISRClockPin HIGH, DigitalRead ISRDataPin (if din 5 then HIGH else LOW), DigitalWrite ISRClockPin LOW,
   DigitalWrite ISRClockPin HIGH, DigitalRead ISRDataPin (if din 6 then HIGH else LOW), DigitalWrite ISRClockPin LOW,
   DigitalWrite ISRClockPin HIGH, DigitalRead ISRDataPin (if din 7 then HIGH else LOW), DigitalWrite ISRClockPin LOW,
   DigitalWrite ISRLatchPin LOW]
  \<and> (\<forall>n. bit (fst (isrReadRegister din)) n \<longleftrightarrow> n < 8 \<and> din (7 - n))"
proof -
  have "snd (isrReadRegister din) =
      [DigitalWrite ISRClockPin HIGH, DigitalWrite ISRLatchPin HIGH]
      @ snd (shiftIn ISRDataPin ISRClockPin MSBFIRST din)
      @ [DigitalWrite ISRLatchPin LOW]"
    by (simp add: isrReadRegister_def Let_def)
  then show ?thesis
    by (simp only: shiftIn_ops append.simps isrReadRegister_bit) simp
qed

text \<open>
  C9. For every pin from 0 to 7 and every retained output byte, \<open>osrDigitalWrite\<close>
  sets bit \<open>pin\<close> when the value is \<open>HIGH\<close>, clears it when the value is \<open>LOW\<close> and
  leaves the byte unchanged for any other value; every other bit keeps its value, and
  the resulting byte is written to the shift register: the latch line is driven low,
  the bits of the resulting byte are put on the data line from bit 7 down to bit 0,
  each followed by a clock pulse, and the latch line is driven high.
\<close>

theorem osrDigitalWrite_frame: "pin < 8 \<Longrightarrow>
   outputs (osrDigitalWrite pin val st) =
     (if val = HIGH then set_bit (unat pin) (outputs st)
      else if val = LOW then unset_bit (unat pin) (outputs st)
      else outputs st)
 \<and> (\<forall>n. bit (outputs (osrDigitalWrite pin val st)) n \<longleftrightarrow>
        (if n = unat pin then val = HIGH \<or> (val \<noteq> LOW \<and> bit (outputs st) n)
         else bit (outputs st) n))
 \<and> osr_lines (osrDigitalWrite pin val st) =
      osr_lines st @ osrWriteRegister (outputs (osrDigitalWrite pin val st))
 \<and> osr_lines (osrDigitalWrite pin val st) =
      osr_lines st @
        [DigitalWrite OSRLatchPin LOW,
         DigitalWrite OSRDataPin (if bit (outputs (osrDigitalWrite pin val st)) 7 then HIGH else LOW), DigitalWrite OSRClockPin HIGH,
         DigitalWrite OSRClockPin LOW,
         DigitalWrite OSRDataPin (if bit (outputs (osrDigitalWrite pin val st)) 6 then HIGH else LOW), DigitalWrite OSRClockPin HIGH,
         DigitalWrite OSRClockPin LOW,
         DigitalWrite OSRDataPin (if bit (outputs (osrDigitalWrite pin val st)) 5 then HIGH else LOW), DigitalWrite OSRClockPin HIGH,
         DigitalWrite OSRClockPin LOW,
         DigitalWrite OSRDataPin (if bit (outputs (osrDigitalWrite pin val st)) 4 then HIGH else LOW), DigitalWrite OSRClockPin HIGH,
         DigitalWrite OSRClockPin LOW,
         DigitalWrite OSRDataPin (if bit (outputs (osrDigitalWrite pin val st)) 3 then HIGH else LOW), DigitalWrite OSRClockPin HIGH,
         DigitalWrite OSRClockPin LOW,
         DigitalWrite OSRDataPin (if bit (outputs (osrDigitalWrite pin val st)) 2 then HIGH else LOW), DigitalWrite OSRClockPin HIGH,
         DigitalWrite OSRClockPin LOW,
         DigitalWrite OSRDataPin (if bit (outputs (osrDigitalWrite pin val st)) 1 then HIGH else LOW), DigitalWrite OSRClockPin HIGH,
         DigitalWrite OSRClockPin LOW,
         DigitalWrite OSRDataPin (if bit (outputs (osrDigitalWrite pin val st)) 0 then HIGH else LOW), DigitalWrite OSRClockPin HIGH,
         DigitalWrite OSRClockPin LOW,
         DigitalWrite OSRLatchPin HIGH]"
proof -
  assume "pin < 8"
  then have p: "unat pin < 8" by (simp add: word_less_nat_alt)
  have s: "bitSet v pin = set_bit (unat pin) v" for v
    using p by (intro bit_eqI) (auto simp add: bit_bitSet bit_simps)
  have c: "bitClear v pin = unset_bit (unat pin) v" for v
    by (intro bit_eqI) (auto simp add: bit_bitClear bit_simps)
  have 1: "outputs (osrDigitalWrite pin val st) =
     (if val = HIGH then set_bit (unat pin) (outputs st)
      else if val = LOW then unset_bit (unat pin) (outputs st)
      else outputs st)"
    by (simp add: osrDigitalWrite_def Let_def s c)
  have 2: "bit (outputs (osrDigitalWrite pin val st)) n \<longleftrightarrow>
        (if n = unat pin then val = HIGH \<or> (val \<noteq> LOW \<and> bit (outputs st) n)
         else bit (outputs st) n)" for n
    using p unfolding 1 by (auto simp add: bit_simps HIGH_def LOW_def)
  have 3: "osr_lines (osrDigitalWrite pin val st) =
      osr_lines st @ osrWriteRegister (outputs (osrDigitalWrite pin val st))"
    by (simp add: osrDigitalWrite_def Let_def)
  have 4: "osr_lines (osrDigitalWrite pin val st) =
      osr_lines st @
        [DigitalWrite OSRLatchPin LOW,
         DigitalWrite OSRDataPin (if bit (outputs (osrDigitalWrite pin val st)) 7 then HIGH else LOW), DigitalWrite OSRClockPin HIGH,
         DigitalWrite OSRClockPin LOW,
         DigitalWrite OSRDataPin (if bit (outputs (osrDigitalWrite pin val st)) 6 then HIGH else LOW), DigitalWrite OSRClockPin HIGH,
         DigitalWrite OSRClockPin LOW,
         DigitalWrite OSRDataPin (if bit (outputs (osrDigitalWrite pin val st)) 5 then HIGH else LOW), DigitalWrite OSRClockPin HIGH,
         DigitalWrite OSRClockPin LOW,
         DigitalWrite OSRDataPin (if bit (outputs (osrDigitalWrite pin val st)) 4 then HIGH else LOW), DigitalWrite OSRClockPin HIGH,
         DigitalWrite OSRClockPin LOW,
         DigitalWrite OSRDataPin (if bit (outputs (osrDigitalWrite pin val st)) 3 then HIGH else LOW), DigitalWrite OSRClockPin HIGH,
         DigitalWrite OSRClockPin LOW,
         DigitalWrite OSRDataPin (if bit (outputs (osrDigitalWrite pin val st)) 2 then HIGH else LOW), DigitalWrite OSRClockPin HIGH,
         DigitalWrite OSRClockPin LOW,
         DigitalWrite OSRDataPin (if bit (outputs (osrDigitalWrite pin val st)) 1 then HIGH else LOW), DigitalWrite OSRClockPin HIGH,
         DigitalWrite OSRClockPin LOW,
         DigitalWrite OSRDataPin (if bit (outputs (osrDigitalWrite pin val st)) 0 then HIGH else LOW), DigitalWrite OSRClockPin HIGH,
         DigitalWrite OSRClockPin LOW,
         DigitalWrite OSRLatchPin HIGH]"
    unfolding 3 osrWriteRegister_ops by (simp only: HIGH_def LOW_def)
  from 1 2 3 4 show ?thesis by blast
qed

theorem osrDigitalWrite_frame_witness:
  "(3 :: u8) < 8
   \<and> outputs (osrDigitalWrite 3 HIGH \<lparr>outputs = 5, osr_lines = []\<rparr>) = 13
   \<and> osr_lines (osrDigitalWrite 3 HIGH \<lparr>outputs = 5, osr_lines = []\<rparr>) =
        [DigitalWrite OSRLatchPin LOW,
         DigitalWrite OSRDataPin (LOW), DigitalWrite OSRClockPin HIGH,
         DigitalWrite OSRClockPin LOW,
         DigitalWrite OSRDataPin (LOW), DigitalWrite OSRClockPin HIGH,
         DigitalWrite OSRClockPin LOW,
         DigitalWrite OSRDataPin (LOW), DigitalWrite OSRClockPin HIGH,
         DigitalWrite OSRClockPin LOW,
         DigitalWrite OSRDataPin (LOW), DigitalWrite OSRClockPin HIGH,
         DigitalWrite OSRClockPin LOW,
         DigitalWrite OSRDataPin (HIGH), DigitalWrite OSRClockPin HIGH,
         DigitalWrite OSRClockPin LOW,
         DigitalWrite OSRDataPin (HIGH), DigitalWrite OSRClockPin HIGH,
         DigitalWrite OSRClockPin LOW,
         DigitalWrite OSRDataPin (LOW), DigitalWrite OSRClockPin HIGH,
         DigitalWrite OSRClockPin LOW,
         DigitalWrite OSRDataPin (HIGH), DigitalWrite OSRClockPin HIGH,
         DigitalWrite OSRClockPin LOW,
         DigitalWrite OSRLatchPin HIGH]"
proof -
  have lt: "(3 :: u8) < 8" by simp
  note frame = osrDigitalWrite_frame [OF lt, of HIGH "\<lparr>outputs = 5, osr_lines = []\<rparr>"]
  note ops = frame [THEN conjunct2, THEN conjunct2, THEN conjunct2]
  from frame [THEN conjunct1]
  have out: "outputs (osrDigitalWrite 3 HIGH \<lparr>outputs = 5, osr_lines = []\<rparr>) = 13"
    by simp
  from ops have "osr_lines (osrDigitalWrite 3 HIGH \<lparr>outputs = 5, osr_lines = []\<rparr>) =
        [DigitalWrite OSRLatchPin LOW,
         DigitalWrite OSRDataPin (if bit (13 :: u8) 7 then HIGH else LOW), DigitalWrite OSRClockPin HIGH,
         DigitalWrite OSRClockPin LOW,
         DigitalWrite OSRDataPin (if bit (13 :: u8) 6 then HIGH else LOW), DigitalWrite OSRClockPin HIGH,
         DigitalWrite OSRClockPin LOW,
         DigitalWrite OSRDataPin (if bit (13 :: u8) 5 then HIGH else LOW), DigitalWrite OSRClockPin HIGH,
         DigitalWrite OSRClockPin LOW,
         DigitalWrite OSRDataPin (if bit (13 :: u8) 4 then HIGH else LOW), DigitalWrite OSRClockPin HIGH,
         DigitalWrite OSRClockPin LOW,
         DigitalWrite OSRDataPin (if bit (13 :: u8) 3 then HIGH else LOW), DigitalWrite OSRClockPin HIGH,
         DigitalWrite OSRClockPin LOW,
         DigitalWrite OSRDataPin (if bit (13 :: u8) 2 then HIGH else LOW), DigitalWrite OSRClockPin HIGH,
         DigitalWrite OSRClockPin LOW,
         DigitalWrite OSRDataPin (if bit (13 :: u8) 1 then HIGH else LOW), DigitalWrite OSRClockPin HIGH,
         DigitalWrite OSRClockPin LOW,
         DigitalWrite OSRDataPin (if bit (13 :: u8) 0 then HIGH else LOW), DigitalWrite OSRClockPin HIGH,
         DigitalWrite OSRClockPin LOW,
         DigitalWrite OSRLatchPin HIGH]"
    unfolding out by (simp add: HIGH_def LOW_def)
  with lt out show ?thesis by (simp add: HIGH_def LOW_def)
qed

section \<open>The port expander sketch\<close>

subsection \<open>The search loop\<close>

lemma unat_inc: "pin < 8 \<Longrightarrow> unat (pin + 1) = unat pin + 1" for pin :: u8
proof -
  assume "pin < 8"
  then have "unat pin < 8" by (simp add: word_less_nat_alt)
  then show ?thesis by (simp add: unat_word_ariths)
qed

lemma pin_loop_inv:
  "unat pin \<le> 8 \<Longrightarrow> (\<forall>j < unat pin. \<not> bit flagB j) \<Longrightarrow>
     unat (pin_loop flagB pin) \<le> 8
   \<and> (\<forall>j < unat (pin_loop flagB pin). \<not> bit flagB j)
   \<and> (unat (pin_loop flagB pin) < 8 \<longrightarrow> bit flagB (unat (pin_loop flagB pin)))"
proof (induction flagB pin rule: pin_loop.induct)
  case (1 flagB pin)
  show ?case
  proof (cases "pin < 8")
    case lt: True
    show ?thesis
    proof (cases "bit flagB (unat pin)")
      case True
      with lt have "pin_loop flagB pin = pin"
        by (subst pin_loop.simps) (simp add: bitRead_eq)
      with True "1.prems" show ?thesis by simp
    next
      case False
      with lt have eq: "pin_loop flagB pin = pin_loop flagB (pin + 1)"
        by (subst pin_loop.simps) (simp add: bitRead_eq)
      have u: "unat (pin + 1) = Suc (unat pin)"
        using lt by (simp add: unat_inc)
      from lt have "unat pin < 8" by (simp add: word_less_nat_alt)
      with u have a: "unat (pin + 1) \<le> 8" by simp
      have b: "\<forall>j < unat (pin + 1). \<not> bit flagB j"
        using "1.prems"(2) False u by (auto simp add: less_Suc_eq)
      from lt False have "bitRead flagB pin = 0" by (simp add: bitRead_eq)
      with "1.IH" [OF lt _ a b] show ?thesis
        unfolding eq by simp
    qed
  next
    case False
    then have "pin_loop flagB pin = pin"
      by (subst pin_loop.simps) simp
    moreover from False have "\<not> unat pin < 8" by (simp add: word_less_nat_alt)
    ultimately show ?thesis using "1.prems" by simp
  qed
qed

lemma pin_loop_found:
  assumes "flagB \<noteq> 0"
  shows "pin_loop flagB 0 < 8"
    and "bit flagB (unat (pin_loop flagB 0))"
    and "\<forall>j < unat (pin_loop flagB 0). \<not> bit flagB j"
proof -
  have inv: "unat (pin_loop flagB 0) \<le> 8
   \<and> (\<forall>j < unat (pin_loop flagB 0). \<not> bit flagB j)
   \<and> (unat (pin_loop flagB 0) < 8 \<longrightarrow> bit flagB (unat (pin_loop flagB 0)))"
    by (rule pin_loop_inv) simp_all
  from assms obtain k where k: "bit flagB k"
    by (auto simp add: bit_eq_iff)
  then have "k < 8" by (auto dest: bit_imp_le_length)
  with k inv have "unat (pin_loop flagB 0) \<noteq> 8" by auto
  with inv have lt: "unat (pin_loop flagB 0) < 8" by simp
  then show "pin_loop flagB 0 < 8" by (simp add: word_less_nat_alt)
  from inv lt show "bit flagB (unat (pin_loop flagB 0))" by simp
  from inv show "\<forall>j < unat (pin_loop flagB 0). \<not> bit flagB j" by simp
qed

lemma pin_loop_none: "pin_loop 0 0 = 8"
proof -
  have inv: "unat (pin_loop 0 0 :: u8) \<le> 8
   \<and> (unat (pin_loop 0 0 :: u8) < 8 \<longrightarrow> bit (0 :: u8) (unat (pin_loop 0 0 :: u8)))"
    using pin_loop_inv [of 0 0] by simp
  then have "unat (pin_loop 0 0 :: u8) = 8" by auto
  then have "of_nat (unat (pin_loop 0 0 :: u8)) = (of_nat 8 :: u8)" by simp
  then show ?thesis by simp
qed

subsection \<open>Running the handler bodies\<close>

lemma exec_append: "exec (fs @ gs) s = exec gs (exec fs s)"
  by (induction fs arbitrary: s) simp_all

lemma trace_emit [simp]: "trace (emit es s) = trace s @ es"
  by (simp add: emit_def)

lemma flag_emit [simp]: "switchDidChange (emit es s) = switchDidChange s"
  by (simp add: emit_def)

lemma pin_handler_result:
  "exec readAndWritePinOnInputChange_body s =
     s\<lparr>l_flagA := fst (interruptedBy_ans (mcp23017 s)),
       l_flagB := snd (interruptedBy_ans (mcp23017 s)),
       l_capA := fst (clearInterrupts_ans (mcp23017 s)),
       l_capB := snd (clearInterrupts_ans (mcp23017 s)),
       l_pin := pin_loop (snd (interruptedBy_ans (mcp23017 s))) 0,
       l_value := bitRead (snd (clearInterrupts_ans (mcp23017 s)))
                    (pin_loop (snd (interruptedBy_ans (mcp23017 s))) 0),
       trace := trace s @
         [Delay 100, McpInterruptedBy, McpClearInterruptsCapture,
          McpDigitalWrite (pin_loop (snd (interruptedBy_ans (mcp23017 s))) 0)
            (bitRead (snd (clearInterrupts_ans (mcp23017 s)))
               (pin_loop (snd (interruptedBy_ans (mcp23017 s))) 0))],
       switchDidChange := False\<rparr>"
  by (simp add: readAndWritePinOnInputChange_body_def delay_def emit_def mcp_interruptedBy_def
      mcp_clearInterrupts_capture_def declare_pin_def find_pin_def read_value_def write_pin_def
      set_switchDidChange_def)

lemma port_handler_result:
  "exec readAndWritePortOnInputChange_body s =
     s\<lparr>trace := trace s @
         [Delay 100, McpReadPort PortB, McpWritePort PortA (readPort_ans (mcp23017 s) PortB),
          McpClearInterrupts],
       switchDidChange := False\<rparr>"
  by (simp add: readAndWritePortOnInputChange_body_def delay_def emit_def portCopy_def
      mcp_clearInterrupts_def set_switchDidChange_def)

subsection \<open>Statements blind to the flag, and the callback in between\<close>

lemma flag_blind_keeps: "flag_blind f \<Longrightarrow> switchDidChange (f s) = switchDidChange s"
proof -
  assume "flag_blind f"
  then have "f (set_switchDidChange (switchDidChange s) s) = set_switchDidChange (switchDidChange s) (f s)"
    by (simp add: flag_blind_def)
  moreover have "set_switchDidChange (switchDidChange s) s = s"
    by (simp add: set_switchDidChange_def)
  ultimately have "f s = set_switchDidChange (switchDidChange s) (f s)" by simp
  then have "switchDidChange (f s) = switchDidChange (set_switchDidChange (switchDidChange s) (f s))"
    by simp
  then show ?thesis by (simp add: set_switchDidChange_def)
qed

lemma flag_blind_exec: "list_all flag_blind fs \<Longrightarrow> flag_blind (exec fs)"
proof (induction fs)
  case Nil
  show ?case by (simp add: flag_blind_def fun_eq_iff)
next
  case (Cons f fs)
  then have f: "flag_blind f" and fs: "flag_blind (exec fs)" by simp_all
  show ?case
    unfolding flag_blind_def
  proof (intro allI)
    fix b s
    have "exec (f # fs) (set_switchDidChange b s) = exec fs (f (set_switchDidChange b s))" by simp
    also have "\<dots> = exec fs (set_switchDidChange b (f s))"
      using f by (simp add: flag_blind_def)
    also have "\<dots> = set_switchDidChange b (exec fs (f s))"
      using fs by (simp add: flag_blind_def)
    finally show "exec (f # fs) (set_switchDidChange b s) = set_switchDidChange b (exec (f # fs) s)"
      by simp
  qed
qed

lemma flag_blind_emit: "flag_blind (emit es)"
  by (simp add: flag_blind_def emit_def set_switchDidChange_def)

lemma flag_blind_stmts:
  "flag_blind (delay ms)" "flag_blind mcp_interruptedBy" "flag_blind mcp_clearInterrupts"
  "flag_blind mcp_clearInterrupts_capture" "flag_blind declare_pin" "flag_blind find_pin"
  "flag_blind read_value" "flag_blind write_pin" "flag_blind portCopy"
  "flag_blind (copy_pin led sw)"
  by (simp_all add: flag_blind_def delay_def emit_def mcp_interruptedBy_def mcp_clearInterrupts_def
      mcp_clearInterrupts_capture_def declare_pin_def find_pin_def read_value_def write_pin_def
      portCopy_def copy_pin_def set_switchDidChange_def)

lemma flag_blind_functions:
  "flag_blind setup_sketch" "flag_blind configurePinsWithPinMode"
  "flag_blind configurePinsWithPortMode" "flag_blind configureInterrupts"
  "flag_blind readAndWriteWithDigitalReadAndDigitalWrite"
proof -
  show pm: "flag_blind configurePinsWithPinMode"
    by (simp add: configurePinsWithPinMode_def flag_blind_emit)
  show pt: "flag_blind configurePinsWithPortMode"
    by (simp add: configurePinsWithPortMode_def flag_blind_emit)
  show ci: "flag_blind configureInterrupts"
    by (simp add: configureInterrupts_def flag_blind_emit)
  show "flag_blind setup_sketch"
    unfolding setup_sketch_def
    by (rule flag_blind_exec) (simp add: flag_blind_emit pt ci)
  show "flag_blind readAndWriteWithDigitalReadAndDigitalWrite"
    unfolding readAndWriteWithDigitalReadAndDigitalWrite_def
    by (rule flag_blind_exec) (simp add: flag_blind_stmts)
qed

lemma run_loop_keeps:
  "flag_blind (loop_with a) \<Longrightarrow> switchDidChange (run_loop a envs s) = switchDidChange s"
proof (induction envs arbitrary: s)
  case Nil
  show ?case by simp
next
  case (Cons e envs)
  have "switchDidChange (run_loop a (e # envs) s) = switchDidChange (loop_with a (s\<lparr>mcp23017 := e\<rparr>))"
    using Cons by simp
  also have "\<dots> = switchDidChange (s\<lparr>mcp23017 := e\<rparr>)"
    using Cons.prems by (rule flag_blind_keeps)
  finally show ?case by simp
qed

lemma exec_isr_lost:
  "list_all flag_blind fs \<Longrightarrow> k \<le> length fs \<Longrightarrow>
     exec_isr k (fs @ [set_switchDidChange False]) s = exec (fs @ [set_switchDidChange False]) s"
proof (induction fs arbitrary: k s)
  case Nil
  then show ?case
    by (simp add: mcp23017ChangeDetectedOnPortB_def set_switchDidChange_def)
next
  case (Cons f fs)
  show ?case
  proof (cases k)
    case 0
    have "f (mcp23017ChangeDetectedOnPortB s) = mcp23017ChangeDetectedOnPortB (f s)"
      using Cons.prems(1) by (simp add: flag_blind_def mcp23017ChangeDetectedOnPortB_def)
    then have "exec_isr 0 ((f # fs) @ [set_switchDidChange False]) s =
        exec_isr 0 (fs @ [set_switchDidChange False]) (f s)"
      by simp
    also have "\<dots> = exec (fs @ [set_switchDidChange False]) (f s)"
      using Cons.prems(1) by (intro Cons.IH) simp_all
    finally show ?thesis using 0 by simp
  next
    case (Suc k')
    with Cons.prems have "exec_isr k' (fs @ [set_switchDidChange False]) (f s) =
        exec (fs @ [set_switchDidChange False]) (f s)"
      by (intro Cons.IH) simp_all
    with Suc show ?thesis by simp
  qed
qed

lemma exec_isr_after: "exec_isr (length fs) fs s = mcp23017ChangeDetectedOnPortB (exec fs s)"
  by (induction fs arbitrary: s) simp_all

lemma exec_take_keeps:
  "list_all flag_blind fs \<Longrightarrow> switchDidChange (exec (take k fs) s) = switchDidChange s"
proof -
  assume "list_all flag_blind fs"
  then have "list_all flag_blind (take k fs)"
    by (auto simp add: list_all_iff dest: in_set_takeD)
  then show ?thesis
    by (intro flag_blind_keeps flag_blind_exec)
qed

lemma pin_body_split:
  "readAndWritePinOnInputChange_body =
     [delay 100, mcp_interruptedBy, mcp_clearInterrupts_capture,
      declare_pin, find_pin, read_value, write_pin] @ [set_switchDidChange False]"
  by (simp add: readAndWritePinOnInputChange_body_def)

lemma port_body_split:
  "readAndWritePortOnInputChange_body =
     [delay 100, portCopy, mcp_clearInterrupts] @ [set_switchDidChange False]"
  by (simp add: readAndWritePortOnInputChange_body_def)

lemma pin_body_isr:
  "k < length readAndWritePinOnInputChange_body \<Longrightarrow>
     exec_isr k readAndWritePinOnInputChange_body s = exec readAndWritePinOnInputChange_body s"
  unfolding pin_body_split
  by (rule exec_isr_lost) (simp_all add: flag_blind_stmts)

lemma port_body_isr:
  "k < length readAndWritePortOnInputChange_body \<Longrightarrow>
     exec_isr k readAndWritePortOnInputChange_body s = exec readAndWritePortOnInputChange_body s"
  unfolding port_body_split
  by (rule exec_isr_lost) (simp_all add: flag_blind_stmts)

lemma exec_prefix_keeps:
  "list_all flag_blind fs \<Longrightarrow> k \<le> length fs \<Longrightarrow>
     switchDidChange (exec (take k (fs @ gs)) s) = switchDidChange s"
  by (simp add: exec_take_keeps)

lemma pin_body_prefix:
  "k < length readAndWritePinOnInputChange_body \<Longrightarrow>
     switchDidChange (exec (take k readAndWritePinOnInputChange_body) s) = switchDidChange s"
  unfolding pin_body_split
  by (rule exec_prefix_keeps) (simp_all add: flag_blind_stmts)

lemma port_body_prefix:
  "k < length readAndWritePortOnInputChange_body \<Longrightarrow>
     switchDidChange (exec (take k readAndWritePortOnInputChange_body) s) = switchDidChange s"
  unfolding port_body_split
  by (rule exec_prefix_keeps) (simp_all add: flag_blind_stmts)

lemma pending_flag: "switchDidChange (pending_state f c)"
  by (simp add: pending_state_def mcp23017ChangeDetectedOnPortB_def set_switchDidChange_def)

subsection \<open>The claims about the handlers\<close>

text \<open>
  C1. When the flag is set and the flag byte of port B has at least one bit set,
  \<open>readAndWritePinOnInputChange\<close> takes as the changed pin the lowest-indexed set bit of
  the flag byte (a pin below 8 whose flag bit is set, with no set flag bit below it),
  takes as its value the same bit position of the capture byte, and writes that pin
  with that value. The flag byte \<open>0b00000101\<close> gives pin 0; the flag byte
  \<open>0b00010000\<close> with the capture byte \<open>0b00010000\<close> gives pin 4 and the value 1.
\<close>

theorem pin_resolver_lowest_set_bit:
  assumes "switchDidChange s" and "snd (interruptedBy_ans (mcp23017 s)) \<noteq> 0"
  shows "l_pin (readAndWritePinOnInputChange s) < 8
    \<and> bit (snd (interruptedBy_ans (mcp23017 s))) (unat (l_pin (readAndWritePinOnInputChange s)))
    \<and> (\<forall>j < unat (l_pin (readAndWritePinOnInputChange s)).
          \<not> bit (snd (interruptedBy_ans (mcp23017 s))) j)
    \<and> l_value (readAndWritePinOnInputChange s) =
        (if bit (snd (clearInterrupts_ans (mcp23017 s))) (unat (l_pin (readAndWritePinOnInputChange s)))
         then HIGH else LOW)
    \<and> trace (readAndWritePinOnInputChange s) =
        trace s @ [Delay 100, McpInterruptedBy, McpClearInterruptsCapture,
                   McpDigitalWrite (l_pin (readAndWritePinOnInputChange s))
                     (l_value (readAndWritePinOnInputChange s))]
    \<and> pin_loop 5 0 = 0
    \<and> pin_loop 16 0 = 4 \<and> bitRead 16 (pin_loop 16 0) = HIGH"
proof -
  let ?flagB = "snd (interruptedBy_ans (mcp23017 s))"
  let ?s' = "readAndWritePinOnInputChange s"
  have pin: "l_pin ?s' = pin_loop ?flagB 0"
    using assms(1) by (simp add: readAndWritePinOnInputChange_def pin_handler_result)
  have val: "l_value ?s' = bitRead (snd (clearInterrupts_ans (mcp23017 s))) (l_pin ?s')"
    using assms(1) by (simp add: readAndWritePinOnInputChange_def pin_handler_result)
  have tr: "trace ?s' = trace s @ [Delay 100, McpInterruptedBy, McpClearInterruptsCapture,
                   McpDigitalWrite (l_pin ?s') (l_value ?s')]"
    using assms(1) by (simp add: readAndWritePinOnInputChange_def pin_handler_result)
  note found = pin_loop_found [OF assms(2)]
  have five: "pin_loop 5 0 = 0"
    by (subst pin_loop.simps) (simp add: bitRead_def)
  have "pin_loop 16 0 = pin_loop 16 1"
    by (subst pin_loop.simps) (simp add: bitRead_def)
  also have "\<dots> = pin_loop 16 2"
    by (subst pin_loop.simps) (simp add: bitRead_def)
  also have "\<dots> = pin_loop 16 3"
    by (subst pin_loop.simps) (simp add: bitRead_def)
  also have "\<dots> = pin_loop 16 4"
    by (subst pin_loop.simps) (simp add: bitRead_def)
  also have "\<dots> = 4"
    by (subst pin_loop.simps) (simp add: bitRead_def)
  finally have sixteen: "pin_loop 16 0 = 4" .
  have rd: "bitRead 16 (pin_loop 16 0) = HIGH"
    unfolding sixteen by (simp add: bitRead_def HIGH_def)
  from found show ?thesis
    unfolding pin [symmetric] using val tr five sixteen rd
    by (simp add: bitRead_eq HIGH_def LOW_def)
qed

theorem pin_resolver_lowest_set_bit_witness:
  "switchDidChange (pending_state 16 16)
   \<and> snd (interruptedBy_ans (mcp23017 (pending_state 16 16))) \<noteq> 0
   \<and> trace (readAndWritePinOnInputChange (pending_state 16 16)) =
       [Delay 100, McpInterruptedBy, McpClearInterruptsCapture,
        McpDigitalWrite (l_pin (readAndWritePinOnInputChange (pending_state 16 16)))
          (l_value (readAndWritePinOnInputChange (pending_state 16 16)))]"
proof -
  have a: "switchDidChange (pending_state 16 16)"
    by (simp add: pending_state_def mcp23017ChangeDetectedOnPortB_def set_switchDidChange_def)
  have b: "snd (interruptedBy_ans (mcp23017 (pending_state 16 16))) \<noteq> 0"
    by (simp add: pending_state_def mcp23017ChangeDetectedOnPortB_def set_switchDidChange_def
        port_answers_def)
  have c: "trace (pending_state 16 16) = []"
    by (simp add: pending_state_def mcp23017ChangeDetectedOnPortB_def set_switchDidChange_def
        start_state_def)
  from pin_resolver_lowest_set_bit [OF a b] a b c show ?thesis by simp
qed

text \<open>
  C2. What the code does at a spurious wake: with the flag set, the flag byte
  \<open>0b00000000\<close> and any capture byte, the search loop is left with \<open>pin = 8\<close>, the
  value read is 0, and the handler calls \<open>mcp23017.digitalWrite(8, 0)\<close>, pin 8 being
  \<open>Switch0\<close>, before it clears the flag. No "no change" outcome is produced.
\<close>

theorem spurious_wake_writes_pin_8: "trace (readAndWritePinOnInputChange (pending_state 0 capB)) =
     [Delay 100, McpInterruptedBy, McpClearInterruptsCapture, McpDigitalWrite 8 LOW]
   \<and> l_pin (readAndWritePinOnInputChange (pending_state 0 capB)) = Switch0
   \<and> \<not> switchDidChange (readAndWritePinOnInputChange (pending_state 0 capB))"
  by (simp add: readAndWritePinOnInputChange_def pin_handler_result pending_state_def
      mcp23017ChangeDetectedOnPortB_def set_switchDidChange_def start_state_def
      port_answers_def pin_loop_none bitRead_def Switch0_def LOW_def)

text \<open>
  C3. The interrupt callback sets the flag to true. No function of the main flow
  other than the two interrupt-driven handlers reads or writes the flag; in the handler
  bodies only the last statement touches it, and it stores false. When the loop runs an
  alternative that does not consume the flag, a flag that is true stays true over any
  number of iterations, whatever the peripheral answers in each.
\<close>

theorem flag_single_writer_no_auto_reset:
  "switchDidChange (mcp23017ChangeDetectedOnPortB s)
   \<and> flag_blind setup_sketch
   \<and> flag_blind configurePinsWithPinMode
   \<and> flag_blind readAndWriteWithDigitalReadAndDigitalWrite
   \<and> flag_blind portCopy
   \<and> list_all flag_blind (butlast readAndWritePortOnInputChange_body)
   \<and> list_all flag_blind (butlast readAndWritePinOnInputChange_body)
   \<and> last readAndWritePortOnInputChange_body = set_switchDidChange False
   \<and> last readAndWritePinOnInputChange_body = set_switchDidChange False
   \<and> \<not> switchDidChange (readAndWritePortOnInputChange s)
   \<and> \<not> switchDidChange (readAndWritePinOnInputChange s)
   \<and> (switchDidChange s \<longrightarrow>
        switchDidChange (run_loop DigitalReadAndDigitalWrite envs s)
      \<and> switchDidChange (run_loop PortCopy envs s))"
proof -
  have 1: "switchDidChange (mcp23017ChangeDetectedOnPortB s)"
    by (simp add: mcp23017ChangeDetectedOnPortB_def set_switchDidChange_def)
  have 2: "list_all flag_blind (butlast readAndWritePortOnInputChange_body)"
    by (simp add: readAndWritePortOnInputChange_body_def flag_blind_stmts)
  have 3: "list_all flag_blind (butlast readAndWritePinOnInputChange_body)"
    by (simp add: readAndWritePinOnInputChange_body_def flag_blind_stmts)
  have 4: "last readAndWritePortOnInputChange_body = set_switchDidChange False"
    by (simp add: readAndWritePortOnInputChange_body_def)
  have 5: "last readAndWritePinOnInputChange_body = set_switchDidChange False"
    by (simp add: readAndWritePinOnInputChange_body_def)
  have 6: "\<not> switchDidChange (readAndWritePortOnInputChange s)"
    by (simp add: readAndWritePortOnInputChange_def port_handler_result)
  have 7: "\<not> switchDidChange (readAndWritePinOnInputChange s)"
    by (simp add: readAndWritePinOnInputChange_def pin_handler_result)
  have 8: "switchDidChange (run_loop DigitalReadAndDigitalWrite envs s) = switchDidChange s"
    by (rule run_loop_keeps) (simp add: flag_blind_functions)
  have 9: "switchDidChange (run_loop PortCopy envs s) = switchDidChange s"
    by (rule run_loop_keeps) (simp add: flag_blind_stmts)
  from 1 2 3 4 5 6 7 8 9 flag_blind_functions flag_blind_stmts show ?thesis
    by simp
qed

theorem flag_single_writer_no_auto_reset_witness:
  "switchDidChange (pending_state 16 16)
   \<and> switchDidChange (run_loop DigitalReadAndDigitalWrite
        [port_answers 1 1, port_answers 0 0, port_answers 32 0] (pending_state 16 16))
   \<and> switchDidChange (run_loop PortCopy
        [port_answers 1 1, port_answers 0 0, port_answers 32 0] (pending_state 16 16))"
  using flag_single_writer_no_auto_reset [of "pending_state 16 16" "[port_answers 1 1, port_answers 0 0, port_answers 32 0]"]
    pending_flag [of 16 16]
  by simp

text \<open>
  C4 as stated does not hold. With the flag set, let the callback run just before
  statement 3 of the body of \<open>readAndWritePinOnInputChange\<close>, that is right after the
  peripheral's interrupt has been cleared. The final store of the handler overwrites
  the callback's store: the flag is false afterwards, and the next iteration of the loop
  does nothing.
\<close>

theorem interrupt_during_handling_lost:
  "switchDidChange (pending_state 16 16)
   \<and> \<not> switchDidChange (exec_isr 3 readAndWritePinOnInputChange_body (pending_state 16 16))
   \<and> loop (exec_isr 3 readAndWritePinOnInputChange_body (pending_state 16 16)) =
       exec_isr 3 readAndWritePinOnInputChange_body (pending_state 16 16)"
proof -
  have "exec_isr 3 readAndWritePinOnInputChange_body (pending_state 16 16) =
      exec readAndWritePinOnInputChange_body (pending_state 16 16)"
    by (rule pin_body_isr) (simp add: readAndWritePinOnInputChange_body_def)
  moreover have "\<not> switchDidChange (exec readAndWritePinOnInputChange_body (pending_state 16 16))"
    by (simp add: pin_handler_result)
  ultimately show ?thesis
    by (simp add: pending_flag loop_def readAndWritePinOnInputChange_def)
qed

text \<open>
  C4, amended. With the flag set, each handler performs its steps in this order: the
  settle delay, the register reads, the command clearing the peripheral's interrupt
  (in \<open>readAndWritePinOnInputChange\<close> that command is itself the read of the capture
  registers, and the output write follows it), and the store of false to the flag as
  the last statement; the flag is still true after every proper prefix of the body. A
  callback running before any statement of the body, the final store included, leaves
  no mark: the handler ends in the same state as without it, with the flag false. Only
  a callback running after the final store leaves the flag true.
\<close>

theorem handler_order_flag_cleared_last:
  assumes "switchDidChange s"
  shows "trace (readAndWritePortOnInputChange s) =
        trace s @ [Delay 100, McpReadPort PortB,
                   McpWritePort PortA (readPort_ans (mcp23017 s) PortB), McpClearInterrupts]
    \<and> trace (readAndWritePinOnInputChange s) =
        trace s @ [Delay 100, McpInterruptedBy, McpClearInterruptsCapture,
                   McpDigitalWrite (l_pin (readAndWritePinOnInputChange s))
                     (l_value (readAndWritePinOnInputChange s))]
    \<and> (\<forall>k < length readAndWritePortOnInputChange_body.
          switchDidChange (exec (take k readAndWritePortOnInputChange_body) s))
    \<and> (\<forall>k < length readAndWritePinOnInputChange_body.
          switchDidChange (exec (take k readAndWritePinOnInputChange_body) s))
    \<and> \<not> switchDidChange (readAndWritePortOnInputChange s)
    \<and> \<not> switchDidChange (readAndWritePinOnInputChange s)
    \<and> (\<forall>k < length readAndWritePortOnInputChange_body.
          exec_isr k readAndWritePortOnInputChange_body s = readAndWritePortOnInputChange s)
    \<and> (\<forall>k < length readAndWritePinOnInputChange_body.
          exec_isr k readAndWritePinOnInputChange_body s = readAndWritePinOnInputChange s)
    \<and> switchDidChange (exec_isr (length readAndWritePortOnInputChange_body)
          readAndWritePortOnInputChange_body s)
    \<and> switchDidChange (exec_isr (length readAndWritePinOnInputChange_body)
          readAndWritePinOnInputChange_body s)"
proof -
  have port: "readAndWritePortOnInputChange s = exec readAndWritePortOnInputChange_body s"
    and pin: "readAndWritePinOnInputChange s = exec readAndWritePinOnInputChange_body s"
    using assms by (simp_all add: readAndWritePortOnInputChange_def readAndWritePinOnInputChange_def)
  have 1: "trace (readAndWritePortOnInputChange s) =
        trace s @ [Delay 100, McpReadPort PortB,
                   McpWritePort PortA (readPort_ans (mcp23017 s) PortB), McpClearInterrupts]"
    unfolding port by (simp add: port_handler_result)
  have 2: "trace (readAndWritePinOnInputChange s) =
        trace s @ [Delay 100, McpInterruptedBy, McpClearInterruptsCapture,
                   McpDigitalWrite (l_pin (readAndWritePinOnInputChange s))
                     (l_value (readAndWritePinOnInputChange s))]"
    unfolding pin by (simp add: pin_handler_result)
  have 3: "\<forall>k < length readAndWritePortOnInputChange_body.
          switchDidChange (exec (take k readAndWritePortOnInputChange_body) s)"
    using assms by (simp add: port_body_prefix)
  have 4: "\<forall>k < length readAndWritePinOnInputChange_body.
          switchDidChange (exec (take k readAndWritePinOnInputChange_body) s)"
    using assms by (simp add: pin_body_prefix)
  have 5: "\<not> switchDidChange (readAndWritePortOnInputChange s)"
    unfolding port by (simp add: port_handler_result)
  have 6: "\<not> switchDidChange (readAndWritePinOnInputChange s)"
    unfolding pin by (simp add: pin_handler_result)
  have 7: "\<forall>k < length readAndWritePortOnInputChange_body.
          exec_isr k readAndWritePortOnInputChange_body s = readAndWritePortOnInputChange s"
    unfolding port by (simp add: port_body_isr)
  have 8: "\<forall>k < length readAndWritePinOnInputChange_body.
          exec_isr k readAndWritePinOnInputChange_body s = readAndWritePinOnInputChange s"
    unfolding pin by (simp add: pin_body_isr)
  have 9: "switchDidChange (exec_isr (length readAndWritePortOnInputChange_body)
          readAndWritePortOnInputChange_body s)"
    by (simp add: exec_isr_after mcp23017ChangeDetectedOnPortB_def set_switchDidChange_def)
  have 10: "switchDidChange (exec_isr (length readAndWritePinOnInputChange_body)
          readAndWritePinOnInputChange_body s)"
    by (simp add: exec_isr_after mcp23017ChangeDetectedOnPortB_def set_switchDidChange_def)
  from 1 2 3 4 5 6 7 8 9 10 show ?thesis by blast
qed

theorem handler_order_flag_cleared_last_witness:
  "switchDidChange (pending_state 16 16)
   \<and> trace (readAndWritePortOnInputChange (pending_state 16 16)) =
       [Delay 100, McpReadPort PortB, McpWritePort PortA 16, McpClearInterrupts]
   \<and> \<not> switchDidChange (readAndWritePinOnInputChange (pending_state 16 16))
   \<and> switchDidChange (exec (take 7 readAndWritePinOnInputChange_body) (pending_state 16 16))
   \<and> exec_isr 3 readAndWritePinOnInputChange_body (pending_state 16 16) =
       readAndWritePinOnInputChange (pending_state 16 16)
   \<and> switchDidChange (exec_isr 8 readAndWritePinOnInputChange_body (pending_state 16 16))"
proof -
  have len: "length readAndWritePinOnInputChange_body = 8"
    by (simp add: readAndWritePinOnInputChange_body_def)
  have tr: "trace (pending_state 16 16) = []"
    and ans: "readPort_ans (mcp23017 (pending_state 16 16)) PortB = 16"
    by (simp_all add: pending_state_def mcp23017ChangeDetectedOnPortB_def set_switchDidChange_def
        start_state_def port_answers_def)
  from handler_order_flag_cleared_last [OF pending_flag [of 16 16]] show ?thesis
    by (simp add: len tr ans pending_flag)
qed

text \<open>
  C10. When the flag is false, one call of either handler returns the state it was
  given: no event is added to the trace and the flag, like every other variable, is
  unchanged.
\<close>

theorem handler_idle_when_flag_clear: "\<not> switchDidChange s \<Longrightarrow>
   readAndWritePinOnInputChange s = s \<and> readAndWritePortOnInputChange s = s"
  by (simp add: readAndWritePinOnInputChange_def readAndWritePortOnInputChange_def)

theorem handler_idle_when_flag_clear_witness: "\<not> switchDidChange start_state
   \<and> readAndWritePinOnInputChange start_state = start_state
   \<and> readAndWritePortOnInputChange start_state = start_state"
proof -
  have "\<not> switchDidChange start_state"
    by (simp add: start_state_def)
  with handler_idle_when_flag_clear [of start_state] show ?thesis by simp
qed

end
